theory Spec2Isabelle
  imports Main "HOL-Library.Word"
begin

section \<open>ForeignFifoBuffer: a FIFO view over borrowed memory\<close>

text \<open>
  A shallow embedding of \<^verbatim>\<open>src/util/ForeignFifoBuffer.hxx\<close>.

  \<^item> \<^verbatim>\<open>size_t\<close> is a 64-bit unsigned word: \<open>+\<close> and \<open>-\<close> wrap around, comparisons are
    unsigned.
  \<^item> Memory is a function from element addresses to elements. A pointer \<^verbatim>\<open>T *\<close> is an
    address counted in elements, \<^verbatim>\<open>nullptr\<close> is address 0, and \<^verbatim>\<open>p + i\<close> is
    \<open>p + unat i\<close>.
  \<^item> A failing \<^verbatim>\<open>assert\<close> is the error value \<open>Inl AssertionFailed\<close> (the build with
    assertions enabled); every method that contains an \<^verbatim>\<open>assert\<close> returns a sum.
  \<^item> Methods that touch the elements pass the memory along with the object.
\<close>

subsection \<open>Data model\<close>

type_synonym size_type = "64 word"

type_synonym addr = nat

type_synonym 'a memory = "addr \<Rightarrow> 'a"

definition nullptr :: addr where
  "nullptr = 0"

datatype error = AssertionFailed

text \<open>The four member variables, in declaration order.\<close>

record ForeignFifoBuffer =
  head :: size_type
  tail :: size_type
  capacity :: size_type
  data :: addr

text \<open>
  Modelled from the spec: \<^verbatim>\<open>WritableBuffer<T>\<close> (the type \<^verbatim>\<open>Range\<close>) is declared in
  \<^verbatim>\<open>WritableBuffer.hxx\<close>, which is not among the sources. The spec describes it as a
  (pointer, length) pair; the code builds it as \<^verbatim>\<open>Range(pointer, length)\<close> and reads its
  members \<^verbatim>\<open>data\<close> and \<^verbatim>\<open>size\<close>.
\<close>

record Range =
  range_data :: addr
  range_size :: size_type

type_synonym 'a state = "'a memory \<times> ForeignFifoBuffer"

subsection \<open>The standard algorithms used by the class\<close>

text \<open>
  \<^verbatim>\<open>std::copy_n(first, n, result)\<close> assigns \<^verbatim>\<open>*result++ = *first++\<close> \<open>n\<close> times, front to
  back. \<^verbatim>\<open>std::move(first, last, d_first)\<close> is the same loop over \<^verbatim>\<open>[first, last)\<close> with
  \<^verbatim>\<open>*d_first++ = std::move(*first++)\<close>. The element type is taken to be trivially movable
  (the bytes and samples the class is instantiated with), so that moving an element
  copies it. For another element type the cells moved from are left in a state the
  source does not determine; the properties below speak of the cells moved to.
  A range with \<^verbatim>\<open>last < first\<close> is undefined in C++; here it is the empty range.
\<close>

fun std_copy_n :: "addr \<Rightarrow> nat \<Rightarrow> addr \<Rightarrow> 'a memory \<Rightarrow> 'a memory" where
  "std_copy_n first 0 result m = m"
| "std_copy_n first (Suc n) result m =
     std_copy_n (Suc first) n (Suc result) (m(result := m first))"

definition std_move :: "addr \<Rightarrow> addr \<Rightarrow> addr \<Rightarrow> 'a memory \<Rightarrow> 'a memory" where
  "std_move first lastp d_first m = std_copy_n first (lastp - first) d_first m"

subsection \<open>Construction, binding and queries\<close>

text \<open>\<^verbatim>\<open>ForeignFifoBuffer(std::nullptr_t n)\<close>\<close>

definition ForeignFifoBuffer_nullptr :: ForeignFifoBuffer where
  "ForeignFifoBuffer_nullptr = \<lparr>head = 0, tail = 0, capacity = 0, data = nullptr\<rparr>"

text \<open>\<^verbatim>\<open>ForeignFifoBuffer(T *_data, size_type _capacity)\<close>\<close>

definition ForeignFifoBuffer_init :: "addr \<Rightarrow> size_type \<Rightarrow> ForeignFifoBuffer" where
  "ForeignFifoBuffer_init d c = \<lparr>head = 0, tail = 0, capacity = c, data = d\<rparr>"

definition IsNull :: "ForeignFifoBuffer \<Rightarrow> bool" where
  "IsNull b = (data b = nullptr)"

definition IsDefined :: "ForeignFifoBuffer \<Rightarrow> bool" where
  "IsDefined b = (\<not> IsNull b)"

definition GetBuffer :: "ForeignFifoBuffer \<Rightarrow> addr" where
  "GetBuffer b = data b"

definition GetCapacity :: "ForeignFifoBuffer \<Rightarrow> size_type" where
  "GetCapacity b = capacity b"

definition SetNull :: "ForeignFifoBuffer \<Rightarrow> ForeignFifoBuffer" where
  "SetNull b = b\<lparr>tail := 0, head := 0, capacity := 0, data := nullptr\<rparr>"

definition SetBuffer :: "addr \<Rightarrow> size_type \<Rightarrow> ForeignFifoBuffer \<Rightarrow> error + ForeignFifoBuffer" where
  "SetBuffer d c b =
     (if \<not> d \<noteq> nullptr then Inl AssertionFailed
      else if \<not> c > 0 then Inl AssertionFailed
      else Inr (b\<lparr>tail := 0, head := 0, capacity := c, data := d\<rparr>))"

fun MoveBuffer :: "addr \<Rightarrow> size_type \<Rightarrow> 'a state \<Rightarrow> error + 'a state" where
  "MoveBuffer new_data new_capacity (m, b) =
     (if \<not> new_capacity \<ge> tail b - head b then Inl AssertionFailed
      else Inr (std_move (data b + unat (head b)) (data b + unat (tail b)) new_data m,
                b\<lparr>data := new_data, capacity := new_capacity,
                  tail := tail b - head b, head := 0\<rparr>))"

definition Clear :: "ForeignFifoBuffer \<Rightarrow> ForeignFifoBuffer" where
  "Clear b = b\<lparr>tail := 0, head := 0\<rparr>"

definition IsEmpty :: "ForeignFifoBuffer \<Rightarrow> bool" where
  "IsEmpty b = (head b = tail b)"

definition IsFull :: "ForeignFifoBuffer \<Rightarrow> bool" where
  "IsFull b = (head b = 0 \<and> tail b = capacity b)"

definition GetAvailable :: "ForeignFifoBuffer \<Rightarrow> size_type" where
  "GetAvailable b = tail b - head b"

subsection \<open>Move construction and move assignment\<close>

text \<open>
  The move constructor builds a new object from \<open>src\<close> and nulls \<open>src\<close>: the pair is
  (the new object, the source afterwards).
\<close>

definition ForeignFifoBuffer_move :: "ForeignFifoBuffer \<Rightarrow> ForeignFifoBuffer \<times> ForeignFifoBuffer" where
  "ForeignFifoBuffer_move src =
     (\<lparr>head = head src, tail = tail src, capacity = capacity src, data = data src\<rparr>,
      SetNull src)"

text \<open>
  Move assignment takes two references, which may denote the same object. Objects live in
  a store indexed by their identity; each statement of the body reads and writes the
  store, so that \<open>this = src\<close> is the aliased case.
\<close>

type_synonym obj = nat

type_synonym objects = "obj \<Rightarrow> ForeignFifoBuffer"

definition move_assign :: "obj \<Rightarrow> obj \<Rightarrow> objects \<Rightarrow> objects" where
  "move_assign this src st =
     (let st1 = st(this := (st this)\<lparr>head := head (st src)\<rparr>);
          st2 = st1(this := (st1 this)\<lparr>tail := tail (st1 src)\<rparr>);
          st3 = st2(this := (st2 this)\<lparr>capacity := capacity (st2 src)\<rparr>);
          st4 = st3(this := (st3 this)\<lparr>data := data (st3 src)\<rparr>)
      in st4(src := SetNull (st4 src)))"

subsection \<open>Compaction, the write path and the read path\<close>

fun Shift :: "'a state \<Rightarrow> error + 'a state" where
  "Shift (m, b) =
     (if head b = 0 then Inr (m, b)
      else if \<not> head b \<le> capacity b then Inl AssertionFailed
      else if \<not> tail b \<le> capacity b then Inl AssertionFailed
      else if \<not> tail b \<ge> head b then Inl AssertionFailed
      else Inr (std_move (data b + unat (head b)) (data b + unat (tail b)) (data b) m,
                b\<lparr>tail := tail b - head b, head := 0\<rparr>))"

fun Write :: "'a state \<Rightarrow> error + ('a state \<times> Range)" where
  "Write (m, b) =
     (case Shift (m, b) of
        Inl e \<Rightarrow> Inl e
      | Inr (m', b') \<Rightarrow>
          Inr ((m', b'),
               \<lparr>range_data = data b' + unat (tail b'), range_size = capacity b' - tail b'\<rparr>))"

fun WantWrite :: "size_type \<Rightarrow> 'a state \<Rightarrow> error + ('a state \<times> bool)" where
  "WantWrite n (m, b) =
     (if tail b + n \<le> capacity b then Inr ((m, b), True)
      else
        let in_use = tail b - head b;
            required_capacity = in_use + n
        in if required_capacity > capacity b then Inr ((m, b), False)
           else (case Shift (m, b) of
                   Inl e \<Rightarrow> Inl e
                 | Inr (m', b') \<Rightarrow>
                     if \<not> tail b' + n \<le> capacity b' then Inl AssertionFailed
                     else Inr ((m', b'), True)))"

definition Append :: "size_type \<Rightarrow> ForeignFifoBuffer \<Rightarrow> error + ForeignFifoBuffer" where
  "Append n b =
     (if \<not> tail b \<le> capacity b then Inl AssertionFailed
      else if \<not> n \<le> capacity b then Inl AssertionFailed
      else if \<not> tail b + n \<le> capacity b then Inl AssertionFailed
      else Inr (b\<lparr>tail := tail b + n\<rparr>))"

text \<open>\<^verbatim>\<open>Range Read() const\<close>\<close>

definition Read :: "ForeignFifoBuffer \<Rightarrow> Range" where
  "Read b = \<lparr>range_data = data b + unat (head b), range_size = tail b - head b\<rparr>"

definition Consume :: "size_type \<Rightarrow> ForeignFifoBuffer \<Rightarrow> error + ForeignFifoBuffer" where
  "Consume n b =
     (if \<not> tail b \<le> capacity b then Inl AssertionFailed
      else if \<not> head b \<le> tail b then Inl AssertionFailed
      else if \<not> n \<le> tail b then Inl AssertionFailed
      else if \<not> head b + n \<le> tail b then Inl AssertionFailed
      else Inr (b\<lparr>head := head b + n\<rparr>))"

text \<open>\<^verbatim>\<open>size_type Read(pointer_type p, size_type n)\<close>\<close>

fun Read_copy :: "addr \<Rightarrow> size_type \<Rightarrow> 'a state \<Rightarrow> error + ('a state \<times> size_type)" where
  "Read_copy p n (m, b) =
     (let range = Read b;
          n' = (if n > range_size range then range_size range else n);
          m' = std_copy_n (range_data range) (unat n') p m
      in case Consume n' b of
           Inl e \<Rightarrow> Inl e
         | Inr b' \<Rightarrow> Inr ((m', b'), n'))"

subsection \<open>Observations used by the properties\<close>

text \<open>The elements stored at \<open>n\<close> consecutive addresses from \<open>p\<close>.\<close>

definition cells :: "'a memory \<Rightarrow> addr \<Rightarrow> nat \<Rightarrow> 'a list" where
  "cells m p n = map m [p ..< p + n]"

text \<open>The elements a range denotes, and the live elements of a view.\<close>

definition range_elems :: "'a memory \<Rightarrow> Range \<Rightarrow> 'a list" where
  "range_elems m r = cells m (range_data r) (unat (range_size r))"

definition live :: "'a state \<Rightarrow> 'a list" where
  "live s = range_elems (fst s) (Read (snd s))"

text \<open>Invariant 1 of the data model: \<open>0 \<le> head \<le> tail \<le> capacity\<close>.\<close>

definition cursor_inv :: "ForeignFifoBuffer \<Rightarrow> bool" where
  "cursor_inv b = (head b \<le> tail b \<and> tail b \<le> capacity b)"

subsection \<open>Calls on one object\<close>

text \<open>
  The public methods that change the object, as calls. The \<^verbatim>\<open>const\<close> methods (\<open>IsNull\<close>,
  \<open>IsDefined\<close>, \<open>GetCapacity\<close>, \<open>IsEmpty\<close>, \<open>IsFull\<close>, \<open>GetAvailable\<close>, \<open>Read\<close>) and
  \<open>GetBuffer\<close> leave every member as it is and are no calls here. \<open>exec\<close> keeps the state
  and drops the return value.
\<close>

datatype call =
    CallSetNull
  | CallSetBuffer addr size_type
  | CallMoveBuffer addr size_type
  | CallClear
  | CallWrite
  | CallWantWrite size_type
  | CallAppend size_type
  | CallConsume size_type
  | CallRead addr size_type

fun exec :: "call \<Rightarrow> 'a state \<Rightarrow> error + 'a state" where
  "exec CallSetNull (m, b) = Inr (m, SetNull b)"
| "exec (CallSetBuffer d c) (m, b) =
     (case SetBuffer d c b of Inl e \<Rightarrow> Inl e | Inr b' \<Rightarrow> Inr (m, b'))"
| "exec (CallMoveBuffer d c) (m, b) = MoveBuffer d c (m, b)"
| "exec CallClear (m, b) = Inr (m, Clear b)"
| "exec CallWrite (m, b) =
     (case Write (m, b) of Inl e \<Rightarrow> Inl e | Inr (s', r) \<Rightarrow> Inr s')"
| "exec (CallWantWrite n) (m, b) =
     (case WantWrite n (m, b) of Inl e \<Rightarrow> Inl e | Inr (s', r) \<Rightarrow> Inr s')"
| "exec (CallAppend n) (m, b) =
     (case Append n b of Inl e \<Rightarrow> Inl e | Inr b' \<Rightarrow> Inr (m, b'))"
| "exec (CallConsume n) (m, b) =
     (case Consume n b of Inl e \<Rightarrow> Inl e | Inr b' \<Rightarrow> Inr (m, b'))"
| "exec (CallRead p n) (m, b) =
     (case Read_copy p n (m, b) of Inl e \<Rightarrow> Inl e | Inr (s', k) \<Rightarrow> Inr s')"

text \<open>
  The preconditions of the calls, read as statements about numbers (no wrap-around):
  \<open>Append\<close> within the capacity, \<open>Consume\<close> within the live data, \<open>MoveBuffer\<close> into a
  block that holds the live data, \<open>SetBuffer\<close> with a handle and a capacity that pass its
  two assertions.
\<close>

fun precondition :: "call \<Rightarrow> ForeignFifoBuffer \<Rightarrow> bool" where
  "precondition (CallSetBuffer d c) b = (d \<noteq> nullptr \<and> c \<noteq> 0)"
| "precondition (CallMoveBuffer d c) b = (unat (GetAvailable b) \<le> unat c)"
| "precondition (CallAppend n) b = (unat (tail b) + unat n \<le> unat (capacity b))"
| "precondition (CallConsume n) b = (unat (head b) + unat n \<le> unat (tail b))"
| "precondition c b = True"

text \<open>
  \<open>MoveBuffer\<close> is the one call that installs a handle without looking at it: the calls
  that hand it a null handle together with a capacity that is not 0.
\<close>

fun null_with_capacity :: "call \<Rightarrow> bool" where
  "null_with_capacity (CallMoveBuffer d c) = (d = nullptr \<and> c \<noteq> 0)"
| "null_with_capacity c = False"

text \<open>
  Invariant 2 of the data model: a view whose \<open>data\<close> is null has
  \<open>capacity = head = tail = 0\<close>.
\<close>

definition null_inv :: "ForeignFifoBuffer \<Rightarrow> bool" where
  "null_inv b = (IsNull b \<longrightarrow> capacity b = 0 \<and> head b = 0 \<and> tail b = 0)"

subsection \<open>A client that writes, probes and reads\<close>

text \<open>
  The protocol of the class comment, as client steps on one binding:
  \<^item> \<open>Put xs\<close>: call \<open>Write\<close>, store \<open>xs\<close> from the start of the returned range, call
    \<open>Append\<close> with the number of elements stored;
  \<^item> \<open>Probe n\<close>: call \<open>WantWrite n\<close>;
  \<^item> \<open>Take n\<close>: call \<open>Read\<close>, look at the first \<open>n\<close> elements of the returned range, call
    \<open>Consume n\<close>;
  \<^item> \<open>TakeInto p n\<close>: call \<open>Read(p, n)\<close> and look at the elements it copied to \<open>p\<close>.
  A step returns the new state and the elements the client observed.
\<close>

datatype 'a fifo_op =
    Put "'a list"
  | Probe size_type
  | Take size_type
  | TakeInto addr size_type

fun store :: "addr \<Rightarrow> 'a list \<Rightarrow> 'a memory \<Rightarrow> 'a memory" where
  "store p [] m = m"
| "store p (x # xs) m = store (Suc p) xs (m(p := x))"

fun step :: "'a fifo_op \<Rightarrow> 'a state \<Rightarrow> error + ('a state \<times> 'a list)" where
  "step (Put xs) (m, b) =
     (case Write (m, b) of
        Inl e \<Rightarrow> Inl e
      | Inr ((m', b'), r) \<Rightarrow>
          (case Append (of_nat (length xs)) b' of
             Inl e \<Rightarrow> Inl e
           | Inr b'' \<Rightarrow> Inr ((store (range_data r) xs m', b''), [])))"
| "step (Probe n) (m, b) =
     (case WantWrite n (m, b) of Inl e \<Rightarrow> Inl e | Inr (s', r) \<Rightarrow> Inr (s', []))"
| "step (Take n) (m, b) =
     (let r = Read b
      in case Consume n b of
           Inl e \<Rightarrow> Inl e
         | Inr b' \<Rightarrow> Inr ((m, b'), cells m (range_data r) (unat n)))"
| "step (TakeInto p n) (m, b) =
     (case Read_copy p n (m, b) of
        Inl e \<Rightarrow> Inl e
      | Inr ((m', b'), k) \<Rightarrow> Inr ((m', b'), cells m' p (unat k)))"

fun run :: "'a fifo_op list \<Rightarrow> 'a state \<Rightarrow> error + ('a state \<times> 'a list)" where
  "run [] s = Inr (s, [])"
| "run (x # xs) s =
     (case step x s of
        Inl e \<Rightarrow> Inl e
      | Inr (s', out) \<Rightarrow>
          (case run xs s' of
             Inl e \<Rightarrow> Inl e
           | Inr (s'', outs) \<Rightarrow> Inr (s'', out @ outs)))"

text \<open>What a run shows: the elements the client observed and the elements still live.\<close>

definition outcome :: "error + ('a state \<times> 'a list) \<Rightarrow> error + ('a list \<times> 'a list)" where
  "outcome r = (case r of Inl e \<Rightarrow> Inl e | Inr (s, out) \<Rightarrow> Inr (out, live s))"

text \<open>
  What the claim asks of the client at each step, and no more: a \<open>Put\<close> stays within the
  range \<open>Write\<close> returned, a \<open>Take\<close> and a \<open>TakeInto\<close> ask for no more than the available
  count. Nothing is asked of a step that fails.
\<close>

fun within_counts_step :: "'a fifo_op \<Rightarrow> 'a state \<Rightarrow> bool" where
  "within_counts_step (Put xs) (m, b) =
     (case Write (m, b) of
        Inl e \<Rightarrow> True
      | Inr (s', r) \<Rightarrow> length xs \<le> unat (range_size r))"
| "within_counts_step (Probe n) (m, b) = True"
| "within_counts_step (Take n) (m, b) = (n \<le> GetAvailable b)"
| "within_counts_step (TakeInto p n) (m, b) = (n \<le> GetAvailable b)"

fun within_counts :: "'a fifo_op list \<Rightarrow> 'a state \<Rightarrow> bool" where
  "within_counts [] s = True"
| "within_counts (x # xs) s =
     (within_counts_step x s \<and>
      (case step x s of Inl e \<Rightarrow> True | Inr (s', out) \<Rightarrow> within_counts xs s'))"

text \<open>
  What the first-in-first-out property needs of the client: a \<open>Put\<close> stays within the
  range \<open>Write\<close> returned, a \<open>Take\<close> within the available count, and a \<open>TakeInto\<close> that
  copies anything has its destination at or below the first live element or at or above
  the end of the live elements (\<open>Read(p, n)\<close> clips \<open>n\<close> itself, so any \<open>n\<close> will do).
  Nothing is asked of a step that fails.
\<close>

fun admissible_step :: "'a fifo_op \<Rightarrow> 'a state \<Rightarrow> bool" where
  "admissible_step (Put xs) (m, b) =
     (case Write (m, b) of
        Inl e \<Rightarrow> True
      | Inr (s', r) \<Rightarrow> length xs \<le> unat (range_size r))"
| "admissible_step (Probe n) (m, b) = True"
| "admissible_step (Take n) (m, b) = (n \<le> GetAvailable b)"
| "admissible_step (TakeInto p n) (m, b) =
     ((if n > GetAvailable b then GetAvailable b else n) = 0 \<or>
      p \<le> data b + unat (head b) \<or>
      data b + unat (tail b) \<le> p)"

fun admissible :: "'a fifo_op list \<Rightarrow> 'a state \<Rightarrow> bool" where
  "admissible [] s = True"
| "admissible (x # xs) s =
     (admissible_step x s \<and>
      (case step x s of Inl e \<Rightarrow> True | Inr (s', out) \<Rightarrow> admissible xs s'))"

fun written :: "'a fifo_op list \<Rightarrow> 'a list" where
  "written [] = []"
| "written (Put xs # ops) = xs @ written ops"
| "written (x # ops) = written ops"

text \<open>
  The queue the spec describes, on a list of elements: writing appends at the end,
  \<open>consume(n)\<close> removes \<open>n\<close> elements from the front, \<open>read_copy(dest, n)\<close> delivers and
  removes \<open>min(n, available)\<close> elements from the front, \<open>can_write\<close> changes nothing. A
  step returns the new queue and the elements read.
\<close>

fun fifo_step :: "'a fifo_op \<Rightarrow> 'a list \<Rightarrow> 'a list \<times> 'a list" where
  "fifo_step (Put xs) q = (q @ xs, [])"
| "fifo_step (Probe n) q = (q, [])"
| "fifo_step (Take n) q = (drop (unat n) q, take (unat n) q)"
| "fifo_step (TakeInto p n) q =
     (drop (min (unat n) (length q)) q, take (min (unat n) (length q)) q)"

fun fifo_run :: "'a fifo_op list \<Rightarrow> 'a list \<Rightarrow> 'a list \<times> 'a list" where
  "fifo_run [] q = (q, [])"
| "fifo_run (x # xs) q =
     (case fifo_step x q of
        (q', out) \<Rightarrow> (case fifo_run xs q' of (q'', outs) \<Rightarrow> (q'', out @ outs)))"

section \<open>Properties\<close>

subsection \<open>The full and empty predicates\<close>

text \<open>
  C2: \<open>IsFull\<close> returns true exactly when \<open>head = 0\<close> and \<open>tail = capacity\<close>; in
  particular a view with \<open>head > 0\<close> and \<open>tail = capacity\<close> is not full.
\<close>

theorem IsFull_iff:
  "IsFull b = (head b = 0 \<and> tail b = capacity b) \<and>
   (0 < head b \<and> tail b = capacity b \<longrightarrow> \<not> IsFull b)"
  by (auto simp: IsFull_def)

theorem IsFull_iff_witness:
  "0 < head \<lparr>head = 2, tail = 8, capacity = 8, data = 100\<rparr> \<and>
   tail \<lparr>head = 2, tail = 8, capacity = 8, data = 100\<rparr>
     = capacity \<lparr>head = 2, tail = 8, capacity = 8, data = 100\<rparr> \<and>
   \<not> IsFull \<lparr>head = 2, tail = 8, capacity = 8, data = 100\<rparr>"
  using IsFull_iff [of "\<lparr>head = 2, tail = 8, capacity = 8, data = 100\<rparr>"] by simp

text \<open>
  C9: every view in the null state (built from \<^verbatim>\<open>nullptr\<close>, after \<open>SetNull\<close>, or after being
  moved from by the move constructor or by move assignment) is null, reports full and
  empty at once, and has nothing available.
\<close>

theorem null_state_full_and_empty:
  "(IsNull ForeignFifoBuffer_nullptr \<and> IsFull ForeignFifoBuffer_nullptr \<and>
    IsEmpty ForeignFifoBuffer_nullptr \<and> GetAvailable ForeignFifoBuffer_nullptr = 0) \<and>
   (IsNull (SetNull b) \<and> IsFull (SetNull b) \<and> IsEmpty (SetNull b) \<and>
    GetAvailable (SetNull b) = 0) \<and>
   (IsNull (snd (ForeignFifoBuffer_move b)) \<and> IsFull (snd (ForeignFifoBuffer_move b)) \<and>
    IsEmpty (snd (ForeignFifoBuffer_move b)) \<and>
    GetAvailable (snd (ForeignFifoBuffer_move b)) = 0) \<and>
   (IsNull (move_assign this src st src) \<and> IsFull (move_assign this src st src) \<and>
    IsEmpty (move_assign this src st src) \<and>
    GetAvailable (move_assign this src st src) = 0)"
  by (simp add: IsNull_def IsFull_def IsEmpty_def GetAvailable_def SetNull_def
      ForeignFifoBuffer_nullptr_def ForeignFifoBuffer_move_def move_assign_def Let_def)

subsection \<open>Move assignment\<close>

lemma SetNull_eq: "SetNull b = ForeignFifoBuffer_nullptr"
  by (cases b) (simp add: SetNull_def ForeignFifoBuffer_nullptr_def)

lemma move_assign_self:
  "move_assign x x st = st(x := ForeignFifoBuffer_nullptr)"
  by (cases "st x") (simp add: move_assign_def Let_def SetNull_def ForeignFifoBuffer_nullptr_def)

lemma move_assign_distinct:
  "this \<noteq> src \<Longrightarrow> move_assign this src st = st(this := st src, src := ForeignFifoBuffer_nullptr)"
  by (auto simp add: move_assign_def Let_def SetNull_def ForeignFifoBuffer_nullptr_def fun_eq_iff)

text \<open>
  C10: move-assigning a view from itself leaves it in the null state (all cursors and the
  capacity 0, \<open>data = nullptr\<close>); no other object changes.
\<close>

theorem self_move_assign_nulls:
  "move_assign x x st = st(x := ForeignFifoBuffer_nullptr) \<and>
   move_assign x x st x = \<lparr>head = 0, tail = 0, capacity = 0, data = nullptr\<rparr>"
  by (simp add: move_assign_self ForeignFifoBuffer_nullptr_def)

subsection \<open>Rebinding\<close>

text \<open>
  C8 as stated fails: the two assertions of \<open>SetBuffer\<close> are separate, so a call with a
  valid handle and capacity 0 fails an assertion although the handle is not null.
\<close>

theorem SetBuffer_counterexample:
  "SetBuffer 100 0 ForeignFifoBuffer_nullptr = Inl AssertionFailed \<and>
   \<not> ((100::addr) = nullptr \<and> (0::size_type) \<noteq> 0)"
  by (simp add: SetBuffer_def nullptr_def)

text \<open>
  C8, amended: \<open>SetBuffer\<close> fails an assertion exactly when the handle is null or the
  capacity is 0; every other call succeeds, installs the handle and the capacity and
  resets \<open>head = tail = 0\<close>, so that nothing is available whatever the state was.
\<close>

theorem SetBuffer_checks:
  "(SetBuffer d c b = Inl AssertionFailed \<longleftrightarrow> d = nullptr \<or> c = 0) \<and>
   (d \<noteq> nullptr \<and> c \<noteq> 0 \<longrightarrow>
      SetBuffer d c b = Inr \<lparr>head = 0, tail = 0, capacity = c, data = d\<rparr> \<and>
      (\<forall>b'. SetBuffer d c b = Inr b' \<longrightarrow> GetAvailable b' = 0))"
  by (auto simp: SetBuffer_def word_gt_0 GetAvailable_def)

theorem SetBuffer_checks_witness:
  "(100::addr) \<noteq> nullptr \<and> (8::size_type) \<noteq> 0 \<and>
   SetBuffer 100 8 \<lparr>head = 2, tail = 5, capacity = 6, data = 40\<rparr>
     = Inr \<lparr>head = 0, tail = 0, capacity = 8, data = 100\<rparr> \<and>
   GetAvailable \<lparr>head = 0, tail = 0, capacity = 8, data = 100\<rparr> = 0"
  using SetBuffer_checks [of 100 8 "\<lparr>head = 2, tail = 5, capacity = 6, data = 40\<rparr>"]
  by (simp add: nullptr_def)

subsection \<open>The copy loop\<close>

lemma std_copy_n_outside:
  "a < d \<or> d + n \<le> a \<Longrightarrow> std_copy_n s n d m a = m a"
  by (induction n arbitrary: s d m) auto

lemma std_copy_n_inside:
  "d \<le> s \<or> s + n \<le> d \<Longrightarrow> i < n \<Longrightarrow> std_copy_n s n d m (d + i) = m (s + i)"
proof (induction n arbitrary: s d m i)
  case 0
  then show ?case by simp
next
  case (Suc n)
  show ?case
  proof (cases i)
    case 0
    then show ?thesis by (simp add: std_copy_n_outside)
  next
    case (Suc j)
    with Suc.prems have j: "j < n" by simp
    from Suc.prems have sep: "Suc d \<le> Suc s \<or> Suc s + n \<le> Suc d" by auto
    from Suc.prems j have ne: "Suc s + j \<noteq> d" by auto
    have "std_copy_n (Suc s) n (Suc d) (m(d := m s)) (Suc d + j) = (m(d := m s)) (Suc s + j)"
      by (rule Suc.IH [OF sep j])
    with ne show ?thesis using Suc by simp
  qed
qed

lemma std_copy_n_numeral:
  "std_copy_n s (numeral k) d m =
     std_copy_n (Suc s) (pred_numeral k) (Suc d) (m(d := m s))"
  by (simp add: numeral_eq_Suc)

lemma length_cells: "length (cells m p n) = n"
  by (simp add: cells_def)

lemma nth_cells: "i < n \<Longrightarrow> cells m p n ! i = m (p + i)"
  by (simp add: cells_def)

lemma cells_std_copy_n:
  "d \<le> s \<or> s + n \<le> d \<Longrightarrow> cells (std_copy_n s n d m) d n = cells m s n"
  by (rule nth_equalityI) (simp_all add: length_cells nth_cells std_copy_n_inside)

lemma cells_cong:
  "(\<And>a. p \<le> a \<Longrightarrow> a < p + n \<Longrightarrow> m' a = m a) \<Longrightarrow> cells m' p n = cells m p n"
  by (rule nth_equalityI) (simp_all add: length_cells nth_cells)

lemma cells_std_copy_n_disjoint:
  "p + k \<le> d \<or> d + n \<le> p \<Longrightarrow> cells (std_copy_n s n d m) p k = cells m p k"
  by (rule cells_cong) (auto intro: std_copy_n_outside)

lemma unat_span:
  "head b \<le> tail b \<Longrightarrow>
   (data b + unat (tail b)) - (data b + unat (head b)) = unat (tail b - head b)"
  by (simp add: unat_sub)

lemma live_eq: "live (m, b) = cells m (data b + unat (head b)) (unat (tail b - head b))"
  by (simp add: live_def range_elems_def Read_def)

subsection \<open>Compaction\<close>

lemma Shift_moves_live:
  assumes "cursor_inv b"
  shows "(head b = 0 \<longrightarrow> Shift (m, b) = Inr (m, b)) \<and>
         (head b \<noteq> 0 \<longrightarrow>
            (\<exists>m'. Shift (m, b) = Inr (m', b\<lparr>tail := tail b - head b, head := 0\<rparr>) \<and>
                  live (m', b\<lparr>tail := tail b - head b, head := 0\<rparr>) = live (m, b) \<and>
                  GetAvailable (b\<lparr>tail := tail b - head b, head := 0\<rparr>) = GetAvailable b \<and>
                  (\<forall>a. (a < data b + unat (head b) \<or> data b + unat (tail b) \<le> a) \<and>
                       (a < data b \<or> data b + unat (GetAvailable b) \<le> a) \<longrightarrow>
                       m' a = m a)))"
proof -
  from assms have ht: "head b \<le> tail b" and tc: "tail b \<le> capacity b"
    by (simp_all add: cursor_inv_def)
  then have hc: "head b \<le> capacity b" by simp
  let ?m' = "std_move (data b + unat (head b)) (data b + unat (tail b)) (data b) m"
  let ?b' = "b\<lparr>tail := tail b - head b, head := 0\<rparr>"
  have m': "?m' = std_copy_n (data b + unat (head b)) (unat (tail b - head b)) (data b) m"
    by (simp only: std_move_def unat_span [OF ht])
  have 1: "head b \<noteq> 0 \<Longrightarrow> Shift (m, b) = Inr (?m', ?b')"
    using ht tc hc by simp
  have 2: "live (?m', ?b') = live (m, b)"
    by (simp add: live_eq m' cells_std_copy_n)
  have 3: "GetAvailable ?b' = GetAvailable b"
    by (simp add: GetAvailable_def)
  have 4: "\<forall>a. (a < data b + unat (head b) \<or> data b + unat (tail b) \<le> a) \<and>
                (a < data b \<or> data b + unat (GetAvailable b) \<le> a) \<longrightarrow> ?m' a = m a"
    by (simp add: m' GetAvailable_def std_copy_n_outside)
  show ?thesis using 1 2 3 4 by auto
qed

text \<open>
  C4 as stated fails in its last part: compaction writes the cells \<open>[0, tail - head)\<close> of
  the block, and those below the old \<open>head\<close> lie outside the old live range. With
  \<open>head = 2\<close>, \<open>tail = 4\<close> the cell at index 0 changes.
\<close>

theorem Shift_counterexample:
  "Shift (id, \<lparr>head = 2, tail = 4, capacity = 4, data = 100\<rparr>)
     = Inr (id(100 := 102, 101 := 103), \<lparr>head = 0, tail = 2, capacity = 4, data = 100\<rparr>) \<and>
   (id(100 := 102, 101 := 103)) (100 + 0) \<noteq> (id :: nat memory) (100 + 0) \<and>
   \<not> (unat (head \<lparr>head = 2, tail = 4, capacity = 4, data = 100\<rparr>) \<le> 0)"
  by (simp add: std_move_def std_copy_n_numeral fun_eq_iff)

text \<open>
  C4, amended: on a view that satisfies the cursor invariant, \<open>Shift\<close> is a no-op when
  \<open>head = 0\<close>; otherwise it returns with \<open>head = 0\<close> and \<open>tail = old tail - old head\<close>, the
  live element sequence and \<open>GetAvailable\<close> are unchanged, and no cell that lies outside
  the old range \<open>[head, tail)\<close> and outside the destination \<open>[0, old tail - old head)\<close>
  changes its value.
\<close>

theorem Shift_compacts:
  assumes "cursor_inv b"
  shows "(head b = 0 \<longrightarrow> Shift (m, b) = Inr (m, b)) \<and>
         (head b \<noteq> 0 \<longrightarrow>
            (\<exists>m'. Shift (m, b) = Inr (m', b\<lparr>tail := tail b - head b, head := 0\<rparr>) \<and>
                  live (m', b\<lparr>tail := tail b - head b, head := 0\<rparr>) = live (m, b) \<and>
                  GetAvailable (b\<lparr>tail := tail b - head b, head := 0\<rparr>) = GetAvailable b \<and>
                  (\<forall>a. (a < data b + unat (head b) \<or> data b + unat (tail b) \<le> a) \<and>
                       (a < data b \<or> data b + unat (GetAvailable b) \<le> a) \<longrightarrow>
                       m' a = m a)))"
  using Shift_moves_live [OF assms] .

theorem Shift_compacts_witness:
  "cursor_inv \<lparr>head = 2, tail = 4, capacity = 4, data = 100\<rparr> \<and>
   head \<lparr>head = 2, tail = 4, capacity = 4, data = 100\<rparr> \<noteq> 0 \<and>
   (\<exists>m'. Shift (id :: nat memory, \<lparr>head = 2, tail = 4, capacity = 4, data = 100\<rparr>)
            = Inr (m', \<lparr>head = 0, tail = 2, capacity = 4, data = 100\<rparr>) \<and>
          live (m', \<lparr>head = 0, tail = 2, capacity = 4, data = 100\<rparr>)
            = live (id, \<lparr>head = 2, tail = 4, capacity = 4, data = 100\<rparr>) \<and>
          m' 104 = 104 \<and> m' 99 = 99)"
  using Shift_compacts [of "\<lparr>head = 2, tail = 4, capacity = 4, data = 100\<rparr>" "id :: nat memory"]
  by (simp add: cursor_inv_def GetAvailable_def)

subsection \<open>Relocation\<close>

text \<open>
  C7: \<open>MoveBuffer\<close> fails its assertion exactly when the new capacity is smaller than
  \<open>GetAvailable\<close>. Otherwise, on a view with \<open>head \<le> tail\<close> and a destination that does
  not start inside the live range (the requirement of \<^verbatim>\<open>std::move\<close> itself), it copies the
  live elements in order to the front of the new block, binds the view to the new block
  and capacity, and sets \<open>head = 0\<close>, \<open>tail = old GetAvailable\<close>: the live sequence and
  \<open>GetAvailable\<close> are unchanged.
\<close>

theorem MoveBuffer_relocates:
  "(MoveBuffer new_data new_capacity (m, b) = Inl AssertionFailed
      \<longleftrightarrow> new_capacity < GetAvailable b) \<and>
   (head b \<le> tail b \<and> GetAvailable b \<le> new_capacity \<and>
    (new_data \<le> data b + unat (head b) \<or> data b + unat (tail b) \<le> new_data) \<longrightarrow>
      (\<exists>m'. MoveBuffer new_data new_capacity (m, b)
               = Inr (m', \<lparr>head = 0, tail = GetAvailable b,
                           capacity = new_capacity, data = new_data\<rparr>) \<and>
            cells m' new_data (unat (GetAvailable b)) = live (m, b) \<and>
            live (m', \<lparr>head = 0, tail = GetAvailable b,
                       capacity = new_capacity, data = new_data\<rparr>) = live (m, b) \<and>
            GetAvailable \<lparr>head = 0, tail = GetAvailable b,
                          capacity = new_capacity, data = new_data\<rparr> = GetAvailable b))"
proof -
  have fail: "MoveBuffer new_data new_capacity (m, b) = Inl AssertionFailed
                \<longleftrightarrow> new_capacity < GetAvailable b"
    by (auto simp: GetAvailable_def)
  have ok: "\<exists>m'. MoveBuffer new_data new_capacity (m, b)
               = Inr (m', \<lparr>head = 0, tail = GetAvailable b,
                           capacity = new_capacity, data = new_data\<rparr>) \<and>
            cells m' new_data (unat (GetAvailable b)) = live (m, b) \<and>
            live (m', \<lparr>head = 0, tail = GetAvailable b,
                       capacity = new_capacity, data = new_data\<rparr>) = live (m, b) \<and>
            GetAvailable \<lparr>head = 0, tail = GetAvailable b,
                          capacity = new_capacity, data = new_data\<rparr> = GetAvailable b"
    if ht: "head b \<le> tail b" and cap: "GetAvailable b \<le> new_capacity"
      and sep: "new_data \<le> data b + unat (head b) \<or> data b + unat (tail b) \<le> new_data"
  proof -
    let ?m' = "std_move (data b + unat (head b)) (data b + unat (tail b)) new_data m"
    have m': "?m' = std_copy_n (data b + unat (head b)) (unat (tail b - head b)) new_data m"
      by (simp only: std_move_def unat_span [OF ht])
    from ht have len: "unat (head b) + unat (tail b - head b) = unat (tail b)"
      by (simp add: unat_sub word_le_nat_alt)
    from sep len have sep': "new_data \<le> data b + unat (head b) \<or>
        data b + unat (head b) + unat (tail b - head b) \<le> new_data"
      by auto
    have c: "cells ?m' new_data (unat (GetAvailable b)) = live (m, b)"
      unfolding m' GetAvailable_def live_eq by (rule cells_std_copy_n [OF sep'])
    have r: "MoveBuffer new_data new_capacity (m, b)
               = Inr (?m', \<lparr>head = 0, tail = GetAvailable b,
                           capacity = new_capacity, data = new_data\<rparr>)"
      using cap by (cases b) (simp add: GetAvailable_def)
    show ?thesis using c r by (simp add: live_eq GetAvailable_def)
  qed
  show ?thesis using fail ok by blast
qed

theorem MoveBuffer_relocates_witness:
  "head \<lparr>head = 2, tail = 4, capacity = 4, data = 100\<rparr>
     \<le> tail \<lparr>head = 2, tail = 4, capacity = 4, data = 100\<rparr> \<and>
   GetAvailable \<lparr>head = 2, tail = 4, capacity = 4, data = 100\<rparr> \<le> 3 \<and>
   (\<exists>m'. MoveBuffer 200 3 (id :: nat memory, \<lparr>head = 2, tail = 4, capacity = 4, data = 100\<rparr>)
            = Inr (m', \<lparr>head = 0, tail = 2, capacity = 3, data = 200\<rparr>) \<and>
          cells m' 200 2 = live (id, \<lparr>head = 2, tail = 4, capacity = 4, data = 100\<rparr>)) \<and>
   MoveBuffer 200 1 (id :: nat memory, \<lparr>head = 2, tail = 4, capacity = 4, data = 100\<rparr>)
     = Inl AssertionFailed"
  using MoveBuffer_relocates [of 200 3 "id :: nat memory" "\<lparr>head = 2, tail = 4, capacity = 4, data = 100\<rparr>"]
  by (simp add: GetAvailable_def word_le_nat_alt)

subsection \<open>Unsigned arithmetic on the cursors\<close>

lemma unat_size_bound: "unat (x :: size_type) < 2 ^ 64"
  using unsigned_less [of x, where 'a = nat] by simp

lemma unat_add_cases:
  "unat (x + y :: size_type) =
     (if unat x + unat y < 2 ^ 64 then unat x + unat y else unat x + unat y - 2 ^ 64)"
  using unat_plus_if' [of x y] by simp

lemma cursor_inv_unat:
  "cursor_inv b \<longleftrightarrow> unat (head b) \<le> unat (tail b) \<and> unat (tail b) \<le> unat (capacity b)"
  by (simp add: cursor_inv_def word_le_nat_alt)

lemma unat_GetAvailable:
  "head b \<le> tail b \<Longrightarrow> unat (GetAvailable b) = unat (tail b) - unat (head b)"
  by (simp add: GetAvailable_def unat_sub)

subsection \<open>Probing for space\<close>

lemma Shift_ok:
  assumes "cursor_inv b"
  shows "\<exists>m'. Shift (m, b) = Inr (m', b\<lparr>tail := tail b - head b, head := 0\<rparr>) \<and>
              live (m', b\<lparr>tail := tail b - head b, head := 0\<rparr>) = live (m, b)"
proof (cases "head b = 0")
  case True
  then show ?thesis by (cases b) simp
next
  case False
  then show ?thesis using Shift_moves_live [OF assms, of m] by blast
qed

text \<open>
  What \<open>WantWrite\<close> returns on a view that satisfies the cursor invariant: true when the
  request fits the free space, and also whenever \<open>tail + n\<close> wraps around.
\<close>

lemma WantWrite_result:
  assumes inv: "cursor_inv b"
  shows "\<exists>m' b'. WantWrite n (m, b)
           = Inr ((m', b'), unat (GetAvailable b) + unat n \<le> unat (capacity b) \<or>
                            2 ^ 64 \<le> unat (tail b) + unat n) \<and>
         live (m', b') = live (m, b) \<and> cursor_inv b' \<and>
         capacity b' = capacity b \<and> data b' = data b \<and>
         GetAvailable b' = GetAvailable b \<and>
         (tail b + n \<le> capacity b \<or> capacity b < GetAvailable b + n \<longrightarrow> m' = m \<and> b' = b) \<and>
         (unat (GetAvailable b) + unat n \<le> unat (capacity b) \<and>
          unat (tail b) + unat n < 2 ^ 64 \<longrightarrow>
            unat (tail b') + unat n \<le> unat (capacity b'))"
proof -
  from inv have ht: "head b \<le> tail b" and tc: "tail b \<le> capacity b"
    by (simp_all add: cursor_inv_def)
  have av: "unat (tail b - head b) = unat (tail b) - unat (head b)"
    using ht by (simp add: unat_sub)
  have hle: "unat (head b) \<le> unat (tail b)" "unat (tail b) \<le> unat (capacity b)"
    using ht tc by (simp_all add: word_le_nat_alt)
  note bd = unat_size_bound [of "capacity b"] unat_size_bound [of n]
  show ?thesis
  proof (cases "tail b + n \<le> capacity b")
    case True
    then have "unat (GetAvailable b) + unat n \<le> unat (capacity b) \<or>
               2 ^ 64 \<le> unat (tail b) + unat n"
      using hle bd by (auto simp: word_le_nat_alt unat_add_cases GetAvailable_def av split: if_splits)
    moreover from True have fits: "unat (tail b) + unat n < 2 ^ 64 \<longrightarrow>
        unat (tail b) + unat n \<le> unat (capacity b)"
      using hle bd by (auto simp: word_le_nat_alt unat_add_cases GetAvailable_def av split: if_splits)
    ultimately show ?thesis using True inv by auto
  next
    case False
    then have nowrap: "unat (tail b) + unat n < 2 ^ 64" and big: "unat (capacity b) < unat (tail b) + unat n"
      using hle bd by (auto simp: word_le_nat_alt unat_add_cases split: if_splits)
    have req: "unat (tail b - head b + n) = unat (tail b) - unat (head b) + unat n"
      using nowrap hle by (simp add: unat_add_cases av)
    show ?thesis
    proof (cases "tail b - head b + n > capacity b")
      case True
      then show ?thesis using False inv nowrap req
        by (auto simp: Let_def word_less_nat_alt GetAvailable_def av)
    next
      case fit: False
      let ?b' = "b\<lparr>tail := tail b - head b, head := 0\<rparr>"
      from Shift_ok [OF inv, of m] obtain m' where
        sh: "Shift (m, b) = Inr (m', ?b')" and lv: "live (m', ?b') = live (m, b)"
        by blast
      from fit req have le: "unat (tail b) - unat (head b) + unat n \<le> unat (capacity b)"
        by (simp add: word_less_nat_alt)
      then have post: "tail ?b' + n \<le> capacity ?b'"
        using req by (simp add: word_le_nat_alt)
      have inv': "cursor_inv ?b'"
        using hle by (simp add: cursor_inv_unat av)
      have ww: "WantWrite n (m, b) = Inr ((m', ?b'), True)"
        using False fit sh post by (simp add: Let_def del: Shift.simps)
      have nz: "\<not> capacity b < GetAvailable b + n" using fit by (simp add: GetAvailable_def)
      show ?thesis
        using ww lv inv' le nz False by (simp add: GetAvailable_def av)
    qed
  qed
qed

text \<open>
  For requests that do not wrap around, \<open>WantWrite\<close> does what C3 says: false exactly
  when \<open>n > capacity - GetAvailable\<close>, true without any change when there is room after
  the tail, and \<open>tail + n \<le> capacity\<close> after a true return.
\<close>

lemma WantWrite_without_wraparound:
  assumes inv: "cursor_inv b" and nowrap: "unat (tail b) + unat n < 2 ^ 64"
  shows "\<exists>m' b' r. WantWrite n (m, b) = Inr ((m', b'), r) \<and>
           (r = False \<longleftrightarrow> capacity b - GetAvailable b < n) \<and>
           (tail b + n \<le> capacity b \<longrightarrow> r \<and> m' = m \<and> b' = b) \<and>
           (\<not> r \<longrightarrow> m' = m \<and> b' = b) \<and>
           (r \<longrightarrow> tail b' + n \<le> capacity b' \<and>
                  unat (tail b') + unat n \<le> unat (capacity b')) \<and>
           live (m', b') = live (m, b)"
proof -
  from inv have hle: "unat (head b) \<le> unat (tail b)" "unat (tail b) \<le> unat (capacity b)"
    by (simp_all add: cursor_inv_unat)
  then have ht: "head b \<le> tail b" by (simp add: word_le_nat_alt)
  have av: "unat (GetAvailable b) = unat (tail b) - unat (head b)"
    by (rule unat_GetAvailable [OF ht])
  have al: "GetAvailable b \<le> capacity b"
    using hle by (simp add: word_le_nat_alt av)
  have free: "capacity b - GetAvailable b < n
                \<longleftrightarrow> unat (capacity b) < unat (GetAvailable b) + unat n"
    using al by (auto simp: word_less_nat_alt unat_sub word_le_nat_alt)
  from WantWrite_result [OF inv, of n m] obtain m' b' where
    ww: "WantWrite n (m, b)
           = Inr ((m', b'), unat (GetAvailable b) + unat n \<le> unat (capacity b) \<or>
                            2 ^ 64 \<le> unat (tail b) + unat n)"
    and lv: "live (m', b') = live (m, b)"
    and same: "tail b + n \<le> capacity b \<or> capacity b < GetAvailable b + n \<longrightarrow> m' = m \<and> b' = b"
    and fits: "unat (GetAvailable b) + unat n \<le> unat (capacity b) \<and>
          unat (tail b) + unat n < 2 ^ 64 \<longrightarrow> unat (tail b') + unat n \<le> unat (capacity b')"
    by blast
  let ?r = "unat (GetAvailable b) + unat n \<le> unat (capacity b)"
  have r: "WantWrite n (m, b) = Inr ((m', b'), ?r)"
    using ww nowrap by simp
  have sum: "unat (GetAvailable b + n) = unat (GetAvailable b) + unat n"
    using nowrap hle av by (simp add: unat_add_cases)
  have 1: "(?r = False) \<longleftrightarrow> capacity b - GetAvailable b < n"
    using free by auto
  have 2: "tail b + n \<le> capacity b \<longrightarrow> ?r \<and> m' = m \<and> b' = b"
    using same nowrap hle av by (auto simp: word_le_nat_alt unat_add_cases)
  have 3: "\<not> ?r \<longrightarrow> m' = m \<and> b' = b"
    using same sum by (auto simp: word_less_nat_alt)
  have 4: "?r \<longrightarrow> unat (tail b') + unat n \<le> unat (capacity b')"
    using fits nowrap by simp
  have 5: "?r \<longrightarrow> tail b' + n \<le> capacity b'"
    using 4 unat_size_bound [of "capacity b'"] by (auto simp: word_le_nat_alt unat_add_cases)
  show ?thesis using r 1 2 3 4 5 lv by blast
qed

text \<open>
  C3 does not hold for every count: \<open>tail + n\<close> is computed in \<^verbatim>\<open>size_t\<close> and wraps. On a
  full view of capacity 8 the request for \<open>2^64 - 1\<close> elements gives \<open>tail + n = 7 \<le> 8\<close>,
  and \<open>WantWrite\<close> returns true although \<open>n > capacity - GetAvailable = 0\<close>; \<open>Append\<close>
  guards the same sum with \<^verbatim>\<open>assert(n <= capacity)\<close>, \<open>WantWrite\<close> does not.
\<close>

theorem WantWrite_wraparound:
  "WantWrite 18446744073709551615 (id :: nat memory, \<lparr>head = 0, tail = 8, capacity = 8, data = 100\<rparr>)
     = Inr ((id, \<lparr>head = 0, tail = 8, capacity = 8, data = 100\<rparr>), True) \<and>
   capacity \<lparr>head = 0, tail = 8, capacity = 8, data = 100\<rparr>
     - GetAvailable \<lparr>head = 0, tail = 8, capacity = 8, data = 100\<rparr> < (18446744073709551615 :: size_type) \<and>
   \<not> unat (tail \<lparr>head = 0, tail = 8, capacity = 8, data = 100\<rparr>) + unat (18446744073709551615 :: size_type)
       \<le> unat (capacity \<lparr>head = 0, tail = 8, capacity = 8, data = 100\<rparr>)"
  by (simp add: GetAvailable_def word_less_nat_alt)

subsection \<open>The cursor invariant\<close>

lemma Append_ok:
  assumes "cursor_inv b" and "unat (tail b) + unat n \<le> unat (capacity b)"
  shows "Append n b = Inr (b\<lparr>tail := tail b + n\<rparr>) \<and> cursor_inv (b\<lparr>tail := tail b + n\<rparr>) \<and>
         unat (tail b + n) = unat (tail b) + unat n"
proof -
  note bd = unat_size_bound [of "capacity b"]
  from assms bd have sum: "unat (tail b + n) = unat (tail b) + unat n"
    by (simp add: unat_add_cases)
  from assms sum show ?thesis
    by (simp add: Append_def cursor_inv_unat word_le_nat_alt)
qed

lemma Consume_ok:
  assumes "cursor_inv b" and "unat (head b) + unat n \<le> unat (tail b)"
  shows "Consume n b = Inr (b\<lparr>head := head b + n\<rparr>) \<and> cursor_inv (b\<lparr>head := head b + n\<rparr>) \<and>
         unat (head b + n) = unat (head b) + unat n"
proof -
  note bd = unat_size_bound [of "tail b"]
  from assms bd have sum: "unat (head b + n) = unat (head b) + unat n"
    by (simp add: unat_add_cases)
  from assms sum show ?thesis
    by (simp add: Consume_def cursor_inv_unat word_le_nat_alt)
qed

lemma Read_copy_ok:
  assumes inv: "cursor_inv b"
  shows "\<exists>k. unat k = min (unat n) (unat (GetAvailable b)) \<and>
             Read_copy p n (m, b)
               = Inr ((std_copy_n (data b + unat (head b)) (unat k) p m,
                       b\<lparr>head := head b + k\<rparr>), k) \<and>
             cursor_inv (b\<lparr>head := head b + k\<rparr>) \<and>
             unat (head b + k) = unat (head b) + unat k"
proof -
  define k where "k = (if n > tail b - head b then tail b - head b else n)"
  from inv have ht: "head b \<le> tail b" by (simp add: cursor_inv_def)
  have av: "unat (tail b - head b) = unat (tail b) - unat (head b)"
    using ht by (simp add: unat_sub)
  have k: "unat k = min (unat n) (unat (GetAvailable b))"
    by (auto simp: k_def GetAvailable_def word_less_nat_alt)
  from inv k av have pre: "unat (head b) + unat k \<le> unat (tail b)"
    unfolding cursor_inv_unat GetAvailable_def by linarith
  from Consume_ok [OF inv pre] have
    c: "Consume k b = Inr (b\<lparr>head := head b + k\<rparr>)"
    and i: "cursor_inv (b\<lparr>head := head b + k\<rparr>)"
    and u: "unat (head b + k) = unat (head b) + unat k"
    by blast+
  have "Read_copy p n (m, b)
          = Inr ((std_copy_n (data b + unat (head b)) (unat k) p m,
                  b\<lparr>head := head b + k\<rparr>), k)"
    using c by (cases "tail b - head b < n") (simp_all add: Let_def Read_def k_def)
  with k i u show ?thesis by blast
qed

lemma exec_cursor_inv:
  assumes inv: "cursor_inv b" and pre: "precondition k b"
  shows "\<exists>m' b'. exec k (m, b) = Inr (m', b') \<and> cursor_inv b'"
proof (cases k)
  case CallSetNull
  then show ?thesis by (simp add: SetNull_def cursor_inv_def)
next
  case (CallSetBuffer d c)
  with pre show ?thesis by (simp add: SetBuffer_def word_gt_0 cursor_inv_def)
next
  case (CallMoveBuffer d c)
  from inv have ht: "head b \<le> tail b" by (simp add: cursor_inv_def)
  from pre CallMoveBuffer have "tail b - head b \<le> c"
    by (simp add: GetAvailable_def word_le_nat_alt)
  with CallMoveBuffer show ?thesis by (simp add: cursor_inv_def)
next
  case CallClear
  then show ?thesis by (simp add: Clear_def cursor_inv_def)
next
  case CallWrite
  from inv have inv': "cursor_inv (b\<lparr>tail := tail b - head b, head := 0\<rparr>)"
    by (auto simp: cursor_inv_unat unat_sub word_le_nat_alt)
  from Shift_ok [OF inv, of m] inv' CallWrite show ?thesis
    by (auto simp del: Shift.simps)
next
  case (CallWantWrite n)
  from WantWrite_result [OF inv, of n m] CallWantWrite show ?thesis
    by (auto simp del: WantWrite.simps)
next
  case (CallAppend n)
  with pre Append_ok [OF inv, of n] show ?thesis by simp
next
  case (CallConsume n)
  with pre Consume_ok [OF inv, of n] show ?thesis by simp
next
  case (CallRead p n)
  from Read_copy_ok [OF inv, of n p m] CallRead show ?thesis
    by (auto simp del: Read_copy.simps)
qed

text \<open>
  C5: the cursor invariant \<open>0 \<le> head \<le> tail \<le> capacity\<close> holds after every
  constructor, is kept by move construction and move assignment (for the target and for
  the source), and every call whose precondition holds returns and keeps it.
\<close>

theorem cursor_inv_after_every_operation:
  "cursor_inv ForeignFifoBuffer_nullptr \<and>
   cursor_inv (ForeignFifoBuffer_init d c) \<and>
   (cursor_inv src \<longrightarrow>
      cursor_inv (fst (ForeignFifoBuffer_move src)) \<and>
      cursor_inv (snd (ForeignFifoBuffer_move src))) \<and>
   (cursor_inv (st that) \<longrightarrow>
      cursor_inv (move_assign this that st this) \<and>
      cursor_inv (move_assign this that st that)) \<and>
   (cursor_inv b \<and> precondition k b \<longrightarrow>
      (\<exists>m' b'. exec k (m, b) = Inr (m', b') \<and> cursor_inv b'))"
proof -
  have 1: "cursor_inv ForeignFifoBuffer_nullptr"
    by (simp add: cursor_inv_def ForeignFifoBuffer_nullptr_def)
  have 2: "cursor_inv (ForeignFifoBuffer_init d c)"
    by (simp add: cursor_inv_def ForeignFifoBuffer_init_def)
  have 3: "cursor_inv src \<longrightarrow>
      cursor_inv (fst (ForeignFifoBuffer_move src)) \<and>
      cursor_inv (snd (ForeignFifoBuffer_move src))"
    by (simp add: cursor_inv_def ForeignFifoBuffer_move_def SetNull_def)
  have 4: "cursor_inv (st that) \<longrightarrow>
      cursor_inv (move_assign this that st this) \<and>
      cursor_inv (move_assign this that st that)"
    by (cases "this = that")
       (simp_all add: move_assign_self move_assign_distinct 1)
  have 5: "cursor_inv b \<and> precondition k b \<longrightarrow>
      (\<exists>m' b'. exec k (m, b) = Inr (m', b') \<and> cursor_inv b')"
    using exec_cursor_inv by blast
  show ?thesis using 1 2 3 4 5 by blast
qed

theorem cursor_inv_after_every_operation_witness:
  "cursor_inv \<lparr>head = 2, tail = 4, capacity = 8, data = 100\<rparr> \<and>
   precondition (CallAppend 4) \<lparr>head = 2, tail = 4, capacity = 8, data = 100\<rparr> \<and>
   (\<exists>m' b'. exec (CallAppend 4) (id :: nat memory, \<lparr>head = 2, tail = 4, capacity = 8, data = 100\<rparr>)
              = Inr (m', b') \<and> cursor_inv b') \<and>
   cursor_inv (fst (ForeignFifoBuffer_move \<lparr>head = 2, tail = 4, capacity = 8, data = 100\<rparr>)) \<and>
   cursor_inv (move_assign 0 1 (\<lambda>x. \<lparr>head = 2, tail = 4, capacity = 8, data = 100\<rparr>) 0)"
  using cursor_inv_after_every_operation
    [of 100 8 "\<lparr>head = 2, tail = 4, capacity = 8, data = 100\<rparr>"
        "\<lambda>x. \<lparr>head = 2, tail = 4, capacity = 8, data = 100\<rparr>" 1 0
        "\<lparr>head = 2, tail = 4, capacity = 8, data = 100\<rparr>" "CallAppend 4" "id :: nat memory"]
  by (simp add: cursor_inv_def)

subsection \<open>The null state\<close>

lemma null_inv_null: "null_inv ForeignFifoBuffer_nullptr"
  by (simp add: null_inv_def ForeignFifoBuffer_nullptr_def)

lemma Shift_fields:
  "Shift (m, b) = Inr (m', b') \<Longrightarrow>
   data b' = data b \<and> capacity b' = capacity b \<and> (head b = 0 \<longrightarrow> b' = b)"
  by (auto split: if_splits)

lemma exec_null_inv:
  assumes inv: "null_inv b" and nn: "\<not> null_with_capacity k" and ex: "exec k (m, b) = Inr (m', b')"
  shows "null_inv b'"
proof (cases k)
  case CallSetNull
  with ex show ?thesis by (auto simp: null_inv_def SetNull_def)
next
  case (CallSetBuffer d c)
  with ex show ?thesis
    by (auto simp: SetBuffer_def null_inv_def IsNull_def split: if_splits)
next
  case (CallMoveBuffer d c)
  with ex have b': "data b' = d" "capacity b' = c" "head b' = 0" "tail b' = tail b - head b"
    and fits: "tail b - head b \<le> c"
    by (auto split: if_splits)
  from nn CallMoveBuffer have "d = nullptr \<longrightarrow> c = 0" by simp
  with fits have "d = nullptr \<longrightarrow> tail b - head b = 0" by auto
  with b' \<open>d = nullptr \<longrightarrow> c = 0\<close> show ?thesis
    by (simp add: null_inv_def IsNull_def)
next
  case CallClear
  with ex inv show ?thesis by (auto simp: null_inv_def IsNull_def Clear_def)
next
  case CallWrite
  with ex obtain r where "Shift (m, b) = Inr (m', b')"
    by (auto split: sum.splits simp del: Shift.simps)
  from Shift_fields [OF this] inv show ?thesis
    by (auto simp: null_inv_def IsNull_def simp del: Shift.simps)
next
  case (CallWantWrite n)
  with ex have "b' = b \<or> Shift (m, b) = Inr (m', b')"
    by (auto split: sum.splits if_splits simp: Let_def simp del: Shift.simps)
  then show ?thesis
  proof
    assume "b' = b"
    with inv show ?thesis by simp
  next
    assume "Shift (m, b) = Inr (m', b')"
    from Shift_fields [OF this] inv show ?thesis
      by (auto simp: null_inv_def IsNull_def simp del: Shift.simps)
  qed
next
  case (CallAppend n)
  with ex inv show ?thesis
    by (auto simp: Append_def null_inv_def IsNull_def split: if_splits)
next
  case (CallConsume n)
  with ex inv show ?thesis
    by (auto simp: Consume_def null_inv_def IsNull_def split: if_splits)
next
  case (CallRead p n)
  with ex inv show ?thesis
    by (auto simp: Consume_def Read_def Let_def null_inv_def IsNull_def
        split: if_splits sum.splits)
qed

text \<open>
  C6 as stated fails: the two-argument constructor and \<open>MoveBuffer\<close> install the handle
  they are given without looking at it, so a null handle with capacity 5 is reachable
  through either.
\<close>

theorem null_inv_counterexample:
  "IsNull (ForeignFifoBuffer_init nullptr 5) \<and>
   capacity (ForeignFifoBuffer_init nullptr 5) \<noteq> 0 \<and>
   exec (CallMoveBuffer nullptr 5) (id :: nat memory, ForeignFifoBuffer_init 100 8)
     = Inr (id, \<lparr>head = 0, tail = 0, capacity = 5, data = nullptr\<rparr>) \<and>
   IsNull \<lparr>head = 0, tail = 0, capacity = 5, data = nullptr\<rparr> \<and>
   capacity \<lparr>head = 0, tail = 0, capacity = 5, data = nullptr\<rparr> \<noteq> 0"
  by (simp add: ForeignFifoBuffer_init_def IsNull_def std_move_def)

text \<open>
  C6, amended: as long as the two-argument constructor and \<open>MoveBuffer\<close> are not given a
  null handle together with a capacity other than 0, a view whose \<open>data\<close> is null has
  \<open>capacity = head = tail = 0\<close> after every construction, move, and every call that
  returns (assertions enabled).
\<close>

theorem null_inv_after_every_operation:
  "null_inv ForeignFifoBuffer_nullptr \<and>
   ((d = nullptr \<longrightarrow> c = 0) \<longrightarrow> null_inv (ForeignFifoBuffer_init d c)) \<and>
   null_inv (SetNull b) \<and>
   (null_inv src \<longrightarrow>
      null_inv (fst (ForeignFifoBuffer_move src)) \<and>
      null_inv (snd (ForeignFifoBuffer_move src))) \<and>
   (null_inv (st that) \<longrightarrow>
      null_inv (move_assign this that st this) \<and>
      null_inv (move_assign this that st that)) \<and>
   (null_inv b \<and> \<not> null_with_capacity k \<and> exec k (m, b) = Inr (m', b') \<longrightarrow> null_inv b')"
proof -
  have 2: "(d = nullptr \<longrightarrow> c = 0) \<longrightarrow> null_inv (ForeignFifoBuffer_init d c)"
    by (simp add: null_inv_def IsNull_def ForeignFifoBuffer_init_def)
  have 3: "null_inv (SetNull b)"
    by (simp add: SetNull_eq null_inv_null)
  have 4: "null_inv src \<longrightarrow>
      null_inv (fst (ForeignFifoBuffer_move src)) \<and>
      null_inv (snd (ForeignFifoBuffer_move src))"
    by (simp add: null_inv_def IsNull_def ForeignFifoBuffer_move_def SetNull_def)
  have 5: "null_inv (st that) \<longrightarrow>
      null_inv (move_assign this that st this) \<and>
      null_inv (move_assign this that st that)"
    by (cases "this = that")
       (simp_all add: move_assign_self move_assign_distinct null_inv_null)
  have 6: "null_inv b \<and> \<not> null_with_capacity k \<and> exec k (m, b) = Inr (m', b') \<longrightarrow> null_inv b'"
    using exec_null_inv by blast
  show ?thesis using null_inv_null 2 3 4 5 6 by blast
qed

theorem null_inv_after_every_operation_witness:
  "(0 :: size_type) = 0 \<and>
   null_inv (ForeignFifoBuffer_init nullptr 0) \<and>
   null_inv (ForeignFifoBuffer_init 100 8) \<and>
   \<not> null_with_capacity (CallMoveBuffer nullptr 0) \<and>
   exec (CallMoveBuffer nullptr 0) (id :: nat memory, ForeignFifoBuffer_init 100 8)
     = Inr (id, ForeignFifoBuffer_init nullptr 0) \<and>
   null_inv (snd (ForeignFifoBuffer_move (ForeignFifoBuffer_init 100 8))) \<and>
   null_inv (move_assign 0 1 (\<lambda>x. ForeignFifoBuffer_init 100 8) 0)"
proof -
  have a: "null_inv (ForeignFifoBuffer_init 100 8)"
    by (simp add: null_inv_def IsNull_def ForeignFifoBuffer_init_def nullptr_def)
  have e: "exec (CallMoveBuffer nullptr 0) (id :: nat memory, ForeignFifoBuffer_init 100 8)
             = Inr (id, ForeignFifoBuffer_init nullptr 0)"
    by (simp add: ForeignFifoBuffer_init_def std_move_def)
  from null_inv_after_every_operation
    [of nullptr 0 "ForeignFifoBuffer_init 100 8" "ForeignFifoBuffer_init 100 8"
        "\<lambda>x. ForeignFifoBuffer_init 100 8" 1 0 "CallMoveBuffer nullptr 0" "id :: nat memory"
        id "ForeignFifoBuffer_init nullptr 0"] a e
  show ?thesis by simp
qed

subsection \<open>First in, first out\<close>

lemma cells_0: "cells m p 0 = []"
  by (simp add: cells_def)

lemma cells_Suc: "cells m p (Suc n) = m p # cells m (Suc p) n"
  by (simp add: cells_def upt_conv_Cons del: upt_Suc)

lemma cells_append: "cells m p (a + b) = cells m p a @ cells m (p + a) b"
  by (induction a arbitrary: p) (simp_all add: cells_0 cells_Suc)

lemma store_outside: "a < p \<or> p + length xs \<le> a \<Longrightarrow> store p xs m a = m a"
  by (induction xs arbitrary: p m) auto

lemma cells_store: "cells (store p xs m) p (length xs) = xs"
proof (induction xs arbitrary: p m)
  case Nil
  show ?case by (simp add: cells_0)
next
  case (Cons x xs)
  have "store (Suc p) xs (m(p := x)) p = x"
    by (simp add: store_outside)
  moreover have "cells (store (Suc p) xs (m(p := x))) (Suc p) (length xs) = xs"
    by (rule Cons.IH)
  ultimately show ?case
    by (simp add: cells_Suc)
qed

lemma cells_store_disjoint:
  "q + k \<le> p \<or> p + length xs \<le> q \<Longrightarrow> cells (store p xs m) q k = cells m q k"
  by (rule cells_cong) (auto intro: store_outside)

text \<open>
  On a view that satisfies the cursor invariant a \<open>Put\<close> is admissible exactly when the
  elements fit into \<open>capacity - GetAvailable\<close>: \<open>Write\<close> compacts first.
\<close>

lemma admissible_Put_iff:
  assumes inv: "cursor_inv b"
  shows "admissible_step (Put xs) (m, b)
           \<longleftrightarrow> length xs \<le> unat (capacity b) - unat (GetAvailable b)"
proof -
  let ?b1 = "b\<lparr>tail := tail b - head b, head := 0\<rparr>"
  from Shift_ok [OF inv, of m] obtain m1 where sh: "Shift (m, b) = Inr (m1, ?b1)"
    by blast
  from inv have hle: "unat (head b) \<le> unat (tail b)" "unat (tail b) \<le> unat (capacity b)"
    by (simp_all add: cursor_inv_unat)
  then have ht: "head b \<le> tail b" by (simp add: word_le_nat_alt)
  have av: "unat (tail b - head b) = unat (tail b) - unat (head b)"
    using ht by (simp add: unat_sub)
  have "tail b - head b \<le> capacity b"
    using hle by (simp add: word_le_nat_alt av)
  then have "unat (capacity b - (tail b - head b)) = unat (capacity b) - unat (tail b - head b)"
    by (simp add: unat_sub)
  with sh show ?thesis
    by (simp add: GetAvailable_def del: Shift.simps)
qed

text \<open>
  Each client step returns; a \<open>Put\<close> appends to the live data, a \<open>Take\<close> and a \<open>TakeInto\<close>
  deliver and remove its front, as the queue of the spec does.
\<close>

lemma step_Put:
  assumes inv: "cursor_inv b" and adm: "admissible_step (Put xs) (m, b)"
  shows "\<exists>m' b'. step (Put xs) (m, b) = Inr ((m', b'), []) \<and>
           live (m', b') = live (m, b) @ xs \<and> cursor_inv b'"
proof -
  let ?b1 = "b\<lparr>tail := tail b - head b, head := 0\<rparr>"
  from Shift_ok [OF inv, of m] obtain m1 where
    sh: "Shift (m, b) = Inr (m1, ?b1)" and lv: "live (m1, ?b1) = live (m, b)"
    by blast
  from inv have inv1: "cursor_inv ?b1"
    by (auto simp: cursor_inv_unat unat_sub word_le_nat_alt)
  then have tc: "tail ?b1 \<le> capacity ?b1" by (simp add: cursor_inv_def)
  have wr: "Write (m, b) = Inr ((m1, ?b1),
      \<lparr>range_data = data ?b1 + unat (tail ?b1), range_size = capacity ?b1 - tail ?b1\<rparr>)"
    using sh by (simp del: Shift.simps)
  from adm wr have len: "length xs \<le> unat (capacity ?b1 - tail ?b1)"
    by (simp del: Shift.simps Write.simps)
  then have len': "length xs \<le> unat (capacity ?b1) - unat (tail ?b1)"
    using tc by (simp add: unat_sub)
  from inv1 have tc': "unat (tail ?b1) \<le> unat (capacity ?b1)"
    by (simp add: cursor_inv_unat)
  from len' unat_size_bound [of "capacity ?b1"] have small: "length xs < 2 ^ 64"
    by linarith
  have un: "unat (of_nat (length xs) :: size_type) = length xs"
    using small by (simp add: unat_of_nat)
  from len' tc' have pre: "unat (tail ?b1) + unat (of_nat (length xs) :: size_type)
      \<le> unat (capacity ?b1)"
    unfolding un by linarith
  let ?n = "of_nat (length xs) :: size_type"
  let ?b2 = "?b1\<lparr>tail := tail ?b1 + ?n\<rparr>"
  let ?m2 = "store (data ?b1 + unat (tail ?b1)) xs m1"
  from Append_ok [OF inv1 pre] have
    ap: "Append ?n ?b1 = Inr ?b2" and inv2: "cursor_inv ?b2"
    and sum: "unat (tail ?b1 + ?n) = unat (tail ?b1) + unat ?n"
    by blast+
  have st: "step (Put xs) (m, b) = Inr ((?m2, ?b2), [])"
    using wr ap by (simp del: Shift.simps Write.simps)
  have l1: "live (m1, ?b1) = cells m1 (data b) (unat (tail ?b1))"
    by (simp add: live_eq)
  have "live (?m2, ?b2) = cells ?m2 (data b) (unat (tail ?b1) + length xs)"
    using sum un by (simp add: live_eq)
  also have "\<dots> = cells ?m2 (data b) (unat (tail ?b1))
                  @ cells ?m2 (data b + unat (tail ?b1)) (length xs)"
    by (rule cells_append)
  also have "cells ?m2 (data b) (unat (tail ?b1)) = cells m1 (data b) (unat (tail ?b1))"
    by (simp add: cells_store_disjoint)
  also have "cells ?m2 (data b + unat (tail ?b1)) (length xs) = xs"
    using cells_store [of "data b + unat (tail ?b1)" xs m1] by simp
  finally have "live (?m2, ?b2) = live (m, b) @ xs"
    using l1 lv by simp
  with st inv2 show ?thesis by blast
qed

lemma length_live: "length (live (m, b)) = unat (GetAvailable b)"
  by (simp add: live_eq length_cells GetAvailable_def)

lemma append_take_drop_eq:
  "out @ rest = q \<Longrightarrow> length out = k \<Longrightarrow> out = take k q \<and> rest = drop k q"
  by auto

lemma step_Probe:
  assumes inv: "cursor_inv b"
  shows "\<exists>m' b'. step (Probe n) (m, b) = Inr ((m', b'), []) \<and>
           live (m', b') = live (m, b) \<and> cursor_inv b'"
proof -
  from WantWrite_result [OF inv, of n m] obtain m' b' r where
    "WantWrite n (m, b) = Inr ((m', b'), r)" "live (m', b') = live (m, b)" "cursor_inv b'"
    by blast
  then show ?thesis by (auto simp del: WantWrite.simps)
qed

lemma step_Take:
  assumes inv: "cursor_inv b" and adm: "admissible_step (Take n) (m, b)"
  shows "\<exists>b'. step (Take n) (m, b) = Inr ((m, b'), take (unat n) (live (m, b))) \<and>
           live (m, b') = drop (unat n) (live (m, b)) \<and> cursor_inv b'"
proof -
  from inv have ht: "head b \<le> tail b" by (simp add: cursor_inv_def)
  have av: "unat (tail b - head b) = unat (tail b) - unat (head b)"
    using ht by (simp add: unat_sub)
  from inv have hle: "unat (head b) \<le> unat (tail b)" by (simp add: cursor_inv_unat)
  from adm have n: "unat n \<le> unat (tail b) - unat (head b)"
    by (simp add: GetAvailable_def word_le_nat_alt av)
  with hle have pre: "unat (head b) + unat n \<le> unat (tail b)" by linarith
  let ?b' = "b\<lparr>head := head b + n\<rparr>"
  from Consume_ok [OF inv pre] have
    c: "Consume n b = Inr ?b'" and inv': "cursor_inv ?b'"
    and sum: "unat (head b + n) = unat (head b) + unat n"
    by blast+
  let ?out = "cells m (data b + unat (head b)) (unat n)"
  have st: "step (Take n) (m, b) = Inr ((m, ?b'), ?out)"
    using c by (simp add: Let_def Read_def)
  have ht': "head b + n \<le> tail b"
    using pre sum by (simp add: word_le_nat_alt)
  have rest: "unat (tail b - (head b + n)) = unat (tail b) - unat (head b) - unat n"
    using ht' sum by (simp add: unat_sub)
  have split: "unat (tail b) - unat (head b)
                 = unat n + (unat (tail b) - unat (head b) - unat n)"
    using n by linarith
  have "live (m, b) = cells m (data b + unat (head b)) (unat (tail b) - unat (head b))"
    by (simp add: live_eq av)
  also have "\<dots> = ?out @ cells m (data b + unat (head b) + unat n)
                               (unat (tail b) - unat (head b) - unat n)"
    by (subst split) (rule cells_append)
  also have "cells m (data b + unat (head b) + unat n)
                     (unat (tail b) - unat (head b) - unat n) = live (m, ?b')"
    by (simp add: live_eq sum rest add.assoc)
  finally have "?out @ live (m, ?b') = live (m, b)" by simp
  from append_take_drop_eq [OF this length_cells] st inv' show ?thesis by auto
qed

lemma step_TakeInto:
  assumes inv: "cursor_inv b" and adm: "admissible_step (TakeInto p n) (m, b)"
  shows "\<exists>m' b'. step (TakeInto p n) (m, b)
             = Inr ((m', b'), take (min (unat n) (length (live (m, b)))) (live (m, b))) \<and>
           live (m', b') = drop (min (unat n) (length (live (m, b)))) (live (m, b)) \<and>
           cursor_inv b'"
proof -
  from inv have ht: "head b \<le> tail b" by (simp add: cursor_inv_def)
  have av: "unat (tail b - head b) = unat (tail b) - unat (head b)"
    using ht by (simp add: unat_sub)
  from inv have hle: "unat (head b) \<le> unat (tail b)" "unat (tail b) \<le> unat (capacity b)"
    by (simp_all add: cursor_inv_unat)
  from Read_copy_ok [OF inv, of n p m] obtain k where
    k: "unat k = min (unat n) (unat (GetAvailable b))"
    and rc: "Read_copy p n (m, b)
               = Inr ((std_copy_n (data b + unat (head b)) (unat k) p m,
                       b\<lparr>head := head b + k\<rparr>), k)"
    and inv': "cursor_inv (b\<lparr>head := head b + k\<rparr>)"
    and sum: "unat (head b + k) = unat (head b) + unat k"
    by blast
  let ?src = "data b + unat (head b)"
  let ?m' = "std_copy_n ?src (unat k) p m"
  let ?b' = "b\<lparr>head := head b + k\<rparr>"
  let ?out = "cells ?m' p (unat k)"
  let ?r = "unat (tail b) - unat (head b) - unat k"
  have kk: "unat (if n > GetAvailable b then GetAvailable b else n) = unat k"
    using k by (auto simp: word_less_nat_alt)
  have k0: "(if n > GetAvailable b then GetAvailable b else n) = 0 \<longleftrightarrow> unat k = 0"
    unfolding kk [symmetric] by (simp add: unat_eq_0)
  from adm have sep: "unat k = 0 \<or> p \<le> ?src \<or> data b + unat (tail b) \<le> p"
    unfolding admissible_step.simps k0 .
  have kle: "unat k \<le> unat (tail b) - unat (head b)"
    using k by (simp add: GetAvailable_def av)
  have st: "step (TakeInto p n) (m, b) = Inr ((?m', ?b'), ?out)"
    using rc by (simp del: Read_copy.simps)
  from sep kle hle have sep1: "p \<le> ?src \<or> ?src + unat k \<le> p" by linarith
  have out: "?out = cells m ?src (unat k)"
    by (rule cells_std_copy_n [OF sep1])
  have ht': "head b + k \<le> tail b"
    using kle hle sum by (simp add: word_le_nat_alt)
  have rest: "unat (tail b - (head b + k)) = unat (tail b) - unat (head b) - unat k"
    using ht' sum by (simp add: unat_sub)
  have keep: "cells ?m' (?src + unat k) ?r = cells m (?src + unat k) ?r"
  proof (cases "unat k = 0")
    case True
    then show ?thesis by simp
  next
    case False
    with sep kle hle have "?src + unat k + ?r \<le> p \<or> p + unat k \<le> ?src + unat k"
      by linarith
    then show ?thesis by (rule cells_std_copy_n_disjoint)
  qed
  have lv': "live (?m', ?b') = cells m (?src + unat k) ?r"
    using keep by (simp add: live_eq sum rest add.assoc)
  have split: "unat (tail b) - unat (head b) = unat k + ?r"
    using kle by linarith
  have "live (m, b) = cells m ?src (unat (tail b) - unat (head b))"
    by (simp add: live_eq av)
  also have "\<dots> = cells m ?src (unat k) @ cells m (?src + unat k) ?r"
    by (subst split) (rule cells_append)
  finally have "?out @ live (?m', ?b') = live (m, b)"
    using out lv' by simp
  moreover have "length ?out = min (unat n) (length (live (m, b)))"
    by (simp add: length_cells k length_live)
  ultimately have "?out = take (min (unat n) (length (live (m, b)))) (live (m, b)) \<and>
      live (?m', ?b') = drop (min (unat n) (length (live (m, b)))) (live (m, b))"
    by (rule append_take_drop_eq)
  with st inv' show ?thesis by auto
qed

lemma step_refines:
  assumes inv: "cursor_inv b" and adm: "admissible_step x (m, b)"
  shows "\<exists>m' b'. step x (m, b) = Inr ((m', b'), snd (fifo_step x (live (m, b)))) \<and>
           live (m', b') = fst (fifo_step x (live (m, b))) \<and> cursor_inv b'"
proof (cases x)
  case (Put xs)
  with step_Put [OF inv, of xs m] adm show ?thesis
    by (auto simp del: step.simps admissible_step.simps)
next
  case (Probe n)
  with step_Probe [OF inv, of n m] show ?thesis
    by (auto simp del: step.simps)
next
  case (Take n)
  with step_Take [OF inv, of n m] adm show ?thesis
    by (auto simp del: step.simps admissible_step.simps)
next
  case (TakeInto p n)
  with step_TakeInto [OF inv, of p n m] adm show ?thesis
    by (auto simp del: step.simps admissible_step.simps)
qed

lemma run_refines:
  "cursor_inv b \<Longrightarrow> admissible ops (m, b) \<Longrightarrow>
   \<exists>m' b'. run ops (m, b) = Inr ((m', b'), snd (fifo_run ops (live (m, b)))) \<and>
      live (m', b') = fst (fifo_run ops (live (m, b))) \<and> cursor_inv b'"
proof (induction ops arbitrary: m b)
  case Nil
  then show ?case by simp
next
  case (Cons x ops)
  from Cons.prems have adm: "admissible_step x (m, b)"
    by (simp del: admissible_step.simps step.simps)
  from step_refines [OF Cons.prems(1) adm] obtain m1 b1 where
    st: "step x (m, b) = Inr ((m1, b1), snd (fifo_step x (live (m, b))))"
    and lv1: "live (m1, b1) = fst (fifo_step x (live (m, b)))"
    and inv1: "cursor_inv b1"
    by blast
  from Cons.prems(2) st have adm1: "admissible ops (m1, b1)"
    by (simp del: admissible_step.simps step.simps)
  from Cons.IH [OF inv1 adm1] obtain m2 b2 where
    rn: "run ops (m1, b1) = Inr ((m2, b2), snd (fifo_run ops (live (m1, b1))))"
    and lv2: "live (m2, b2) = fst (fifo_run ops (live (m1, b1)))"
    and inv2: "cursor_inv b2"
    by blast
  have r: "run (x # ops) (m, b)
             = Inr ((m2, b2), snd (fifo_step x (live (m, b)))
                              @ snd (fifo_run ops (live (m1, b1))))"
    using st rn by (simp del: step.simps)
  have sp: "fifo_run (x # ops) (live (m, b))
              = (fst (fifo_run ops (live (m1, b1))),
                 snd (fifo_step x (live (m, b))) @ snd (fifo_run ops (live (m1, b1))))"
    unfolding lv1 by (simp add: case_prod_unfold del: fifo_step.simps)
  show ?case using r lv2 inv2 unfolding sp by simp
qed

lemma fifo_step_written:
  "snd (fifo_step x q) @ fst (fifo_step x q) = q @ written [x]"
  by (cases x) simp_all

lemma fifo_run_written:
  "snd (fifo_run ops q) @ fst (fifo_run ops q) = q @ written ops"
proof (induction ops arbitrary: q)
  case Nil
  show ?case by simp
next
  case (Cons x ops)
  have w: "written (x # ops) = written [x] @ written ops"
    by (cases x) simp_all
  have "snd (fifo_run (x # ops) q) @ fst (fifo_run (x # ops) q)
          = snd (fifo_step x q) @ (snd (fifo_run ops (fst (fifo_step x q)))
                                   @ fst (fifo_run ops (fst (fifo_step x q))))"
    by (simp add: case_prod_unfold del: fifo_step.simps)
  also have "\<dots> = snd (fifo_step x q) @ fst (fifo_step x q) @ written ops"
    by (simp only: Cons.IH)
  also have "\<dots> = q @ written (x # ops)"
    using fifo_step_written [of x q] w by simp
  finally show ?case .
qed

text \<open>
  C1 as stated fails: \<open>Read(p, n)\<close> copies to wherever \<open>p\<close> points, and the claim asks
  nothing of \<open>p\<close>. With 1, 2, 3 live at addresses 100 to 102, \<open>Read(101, 1)\<close> stays within
  the available count and overwrites the 2 before it is read: the reads deliver 1, 1, 3.
\<close>

theorem fifo_counterexample:
  "within_counts [Put [1, 2, 3], TakeInto 101 1, Take 2]
     (id :: nat memory, ForeignFifoBuffer_init 100 4) \<and>
   outcome (run [Put [1, 2, 3], TakeInto 101 1, Take 2]
              (id :: nat memory, ForeignFifoBuffer_init 100 4)) = Inr ([1, 1, 3], []) \<and>
   written [Put [1, 2, 3], TakeInto 101 1, Take 2] = [1, 2, 3 :: nat]"
  by code_simp

text \<open>
  C1, amended: take any sequence of client steps on a freshly bound view in which every
  \<open>Put\<close> stays within the range \<open>Write\<close> returned, every \<open>Take\<close> stays within the available
  count, and every \<open>TakeInto\<close> that copies anything has its destination at or below the
  first live element or at or above the end of the live elements. Then no assertion
  fails, every read delivers what the queue of the spec delivers (\<open>Read(p, n)\<close>:
  the first \<open>min(n, available)\<close> elements), the elements left live are the queue of the
  spec, and the elements read followed by the elements left are the elements written,
  in the order they were written, however the steps and the compactions of \<open>Write\<close> and
  \<open>WantWrite\<close> interleave.
\<close>

theorem fifo_order_preserved:
  assumes "admissible ops (m, ForeignFifoBuffer_init d c)"
  shows "outcome (run ops (m, ForeignFifoBuffer_init d c))
           = Inr (snd (fifo_run ops []), fst (fifo_run ops [])) \<and>
         snd (fifo_run ops []) @ fst (fifo_run ops []) = written ops"
proof -
  have inv: "cursor_inv (ForeignFifoBuffer_init d c)"
    by (simp add: cursor_inv_def ForeignFifoBuffer_init_def)
  have e: "live (m, ForeignFifoBuffer_init d c) = []"
    by (simp add: live_eq ForeignFifoBuffer_init_def cells_0)
  from run_refines [OF inv assms] obtain m' b' where
    "run ops (m, ForeignFifoBuffer_init d c) = Inr ((m', b'), snd (fifo_run ops []))"
    "live (m', b') = fst (fifo_run ops [])"
    unfolding e by blast
  then have "outcome (run ops (m, ForeignFifoBuffer_init d c))
               = Inr (snd (fifo_run ops []), fst (fifo_run ops []))"
    by (simp add: outcome_def)
  with fifo_run_written [of ops "[]"] show ?thesis by simp
qed

theorem fifo_order_preserved_witness:
  "admissible [Put [1, 2, 3], Take 2, Probe 2, Put [4, 5], TakeInto 50 7]
     (id :: nat memory, ForeignFifoBuffer_init 100 4) \<and>
   outcome (run [Put [1, 2, 3], Take 2, Probe 2, Put [4, 5], TakeInto 50 7]
              (id :: nat memory, ForeignFifoBuffer_init 100 4))
     = Inr ([1, 2, 3, 4, 5], []) \<and>
   written [Put [1, 2, 3], Take 2, Probe 2, Put [4, 5], TakeInto 50 7] = [1, 2, 3, 4, 5 :: nat]"
proof -
  have adm: "admissible [Put [1, 2, 3], Take 2, Probe 2, Put [4, 5], TakeInto 50 7]
     (id :: nat memory, ForeignFifoBuffer_init 100 4)"
    by code_simp
  have sp: "fifo_run [Put [1, 2, 3], Take 2, Probe 2, Put [4, 5], TakeInto 50 7] []
              = ([], [1, 2, 3, 4, 5 :: nat])"
    by code_simp
  from fifo_order_preserved [OF adm] adm show ?thesis
    unfolding sp by simp
qed

text \<open>Sequences that overrun the range of \<open>Write\<close> or copy onto live elements are not admissible.\<close>

lemma not_admissible_example:
  "\<not> admissible [Put [1, 2, 3], Put [4, 5]] (id :: nat memory, ForeignFifoBuffer_init 100 4) \<and>
   \<not> admissible [Put [1, 2, 3], TakeInto 101 1, Take 2]
        (id :: nat memory, ForeignFifoBuffer_init 100 4)"
  by code_simp

end
